theory Spec2Isabelle
  imports Complex_Main "HOL-Library.Multiset" "HOL-Library.List_Lexorder" "HOL-Library.Char_ord"
begin

section \<open>Data model\<close>

text \<open>
  The two scripts load a spreadsheet into a pandas DataFrame and work on its columns by
  name. A row of the sheet is a record with one field per column that the code reads; the
  frame is the list of its rows, in sheet order. Numbers are modelled as reals (the
  finite values of a float64 column), and pandas' missing marker (NaN, None) is
  \<open>None\<close>. Category columns hold strings or are missing.

  A cell as it comes from the sheet, before \<open>preprocess_data\<close>: a number, a text, or an
  empty cell.
\<close>

datatype cell = Number real | Text string | Blank

text \<open>The exceptions that the library calls of the two scripts can raise.\<close>

datatype error = ValueError | KeyError | InvalidParameterError

text \<open>Columns of the discharge-outlet sheet read by \<open>pollution_trace.py\<close>, before coercion.\<close>

record raw_row =
  raw_entity_name :: "string option"
  raw_outlet_type :: "string option"
  raw_longitude :: cell
  raw_latitude :: cell
  raw_wastewater :: cell
  raw_main_pollutant :: cell
  raw_ammonia_nitrogen :: cell
  raw_total_phosphorus :: cell
  raw_total_nitrogen :: cell

text \<open>The same columns after coercion to numbers.\<close>

record row =
  entity_name :: "string option"
  outlet_type :: "string option"
  longitude :: "real option"
  latitude :: "real option"
  wastewater :: "real option"
  main_pollutant :: "real option"
  ammonia_nitrogen :: "real option"
  total_phosphorus :: "real option"
  total_nitrogen :: "real option"

text \<open>
  The state of a \<open>PollutionTracer\<close>: the frame \<open>self.data\<close>, and the two columns that
  the methods add to it, \<open>cluster\<close> and \<open>total_pollution\<close>, each absent (\<open>None\<close>) until
  the method that assigns it has run.
\<close>

record tracer =
  data :: "row list"
  cluster :: "int list option"
  total_pollution :: "real list option"

section \<open>Preprocessing\<close>

text \<open>
  \<open>pd.to_numeric(column, errors='coerce')\<close>, cell by cell: a number stays, a text is read
  by the library's parser of numeric literals (a parameter here, \<open>None\<close> where the text is
  no number), an empty cell is missing. With \<open>errors='coerce'\<close> no cell raises.
\<close>

definition to_numeric :: "(string \<Rightarrow> real option) \<Rightarrow> cell \<Rightarrow> real option" where
  "to_numeric parse c = (case c of Number x \<Rightarrow> Some x | Text s \<Rightarrow> parse s | Blank \<Rightarrow> None)"

text \<open>\<open>PollutionTracer.preprocess_data\<close>: the two coordinates, then the five loads.\<close>

definition preprocess_row :: "(string \<Rightarrow> real option) \<Rightarrow> raw_row \<Rightarrow> row" where
  "preprocess_row parse r =
     \<lparr> entity_name = raw_entity_name r,
       outlet_type = raw_outlet_type r,
       longitude = to_numeric parse (raw_longitude r),
       latitude = to_numeric parse (raw_latitude r),
       wastewater = to_numeric parse (raw_wastewater r),
       main_pollutant = to_numeric parse (raw_main_pollutant r),
       ammonia_nitrogen = to_numeric parse (raw_ammonia_nitrogen r),
       total_phosphorus = to_numeric parse (raw_total_phosphorus r),
       total_nitrogen = to_numeric parse (raw_total_nitrogen r) \<rparr>"

definition preprocess_data :: "(string \<Rightarrow> real option) \<Rightarrow> raw_row list \<Rightarrow> row list" where
  "preprocess_data parse rows = map (preprocess_row parse) rows"

text \<open>\<open>PollutionTracer.__init__\<close> after reading the sheet.\<close>

definition init_tracer :: "(string \<Rightarrow> real option) \<Rightarrow> raw_row list \<Rightarrow> tracer" where
  "init_tracer parse rows =
     \<lparr> data = preprocess_data parse rows, cluster = None, total_pollution = None \<rparr>"




section \<open>Pollutant totals\<close>

text \<open>
  \<open>DataFrame.sum(axis=1)\<close> with its defaults (\<open>skipna=True\<close>, \<open>min_count=0\<close>): the sum of
  the values present in the row; a row with no value present sums to 0.
\<close>

definition sum_skipna :: "real option list \<Rightarrow> real" where
  "sum_skipna vs = sum_list (map (\<lambda>v. case v of None \<Rightarrow> 0 | Some x \<Rightarrow> x) vs)"

definition row_total :: "row \<Rightarrow> real" where
  "row_total r =
     sum_skipna [main_pollutant r, ammonia_nitrogen r, total_phosphorus r, total_nitrogen r]"

text \<open>Lines 50 to 53 of \<open>pollution_analysis\<close>: the column \<open>total_pollution\<close> is assigned.\<close>

definition assign_total_pollution :: "tracer \<Rightarrow> tracer" where
  "assign_total_pollution st = st\<lparr> total_pollution := Some (map row_total (data st)) \<rparr>"


section \<open>Statistics per entity\<close>

text \<open>The values present in a column, in order (\<open>dropna\<close>).\<close>

fun dropna :: "'a option list \<Rightarrow> 'a list" where
  "dropna [] = []"
| "dropna (None # xs) = dropna xs"
| "dropna (Some x # xs) = x # dropna xs"

text \<open>
  \<open>Series.mode()\<close> with its default \<open>dropna=True\<close>: the values present that occur most
  often, every one of them once, sorted ascending (pandas sorts the modes before it returns
  them). Strings are ordered as Python orders them, character by character.
\<close>

definition series_mode :: "string option list \<Rightarrow> string list" where
  "series_mode x =
     (let vs = dropna x in
      if vs = [] then []
      else (let best = Max (set (map (count_list vs) vs))
            in sort (filter (\<lambda>v. count_list vs v = best) (remdups vs))))"

text \<open>The aggregation \<open>lambda x: x.mode()[0] if not x.mode().empty else None\<close>.\<close>

definition outlet_type_agg :: "string option list \<Rightarrow> string option" where
  "outlet_type_agg x = (if series_mode x \<noteq> [] then Some (series_mode x ! 0) else None)"

text \<open>
  The keys of a \<open>groupby\<close> with its defaults (\<open>sort=True\<close>, \<open>dropna=True\<close>): the distinct
  values present in the key column, ascending.
\<close>

definition group_keys :: "'k::linorder option list \<Rightarrow> 'k list" where
  "group_keys ks = sort (remdups (dropna ks))"

record company_stat =
  cs_entity :: string
  cs_total_pollution :: real
  cs_wastewater :: real
  cs_outlet_type :: "string option"

text \<open>
  Lines 56 to 60: the frame grouped by entity name; per group the sum of
  \<open>total_pollution\<close>, the sum of the waste-water volume (a missing volume is skipped) and
  the aggregated outlet type. \<open>totals\<close> is the column \<open>total_pollution\<close>.
\<close>

definition company_group :: "row list \<Rightarrow> real list \<Rightarrow> string \<Rightarrow> (row \<times> real) list" where
  "company_group rows totals k = filter (\<lambda>(r, t). entity_name r = Some k) (zip rows totals)"

definition company_stats_grouped :: "row list \<Rightarrow> real list \<Rightarrow> company_stat list" where
  "company_stats_grouped rows totals =
     map (\<lambda>k. let g = company_group rows totals k in
            \<lparr> cs_entity = k,
              cs_total_pollution = sum_list (map snd g),
              cs_wastewater = sum_skipna (map (\<lambda>(r, t). wastewater r) g),
              cs_outlet_type = outlet_type_agg (map (\<lambda>(r, t). outlet_type r) g) \<rparr>)
         (group_keys (map entity_name rows))"

text \<open>
  \<open>sort_values(column, ascending=False)\<close> with its default \<open>kind='quicksort'\<close>. The
  library promises a rearrangement of the rows with the column descending; it promises no
  order among rows with equal values (only \<open>mergesort\<close> and \<open>stable\<close> are stable sorts),
  and what numpy's quicksort does with them depends on the length of the column and on the
  machine. So the sort is modelled by its contract: \<open>ys\<close> is a result of sorting \<open>xs\<close>.
\<close>

definition sort_values_desc :: "('a \<Rightarrow> real) \<Rightarrow> 'a list \<Rightarrow> 'a list \<Rightarrow> bool" where
  "sort_values_desc key xs ys \<longleftrightarrow> mset ys = mset xs \<and> sorted_wrt (\<lambda>a b. key a \<ge> key b) ys"

text \<open>
  \<open>PollutionTracer.pollution_analysis\<close>: from the state \<open>st\<close> it returns \<open>company_stats\<close>
  and leaves the state \<open>st'\<close>.
\<close>

definition pollution_analysis :: "tracer \<Rightarrow> company_stat list \<Rightarrow> tracer \<Rightarrow> bool" where
  "pollution_analysis st company_stats st' \<longleftrightarrow>
     st' = assign_total_pollution st \<and>
     (case total_pollution st' of
        None \<Rightarrow> False
      | Some totals \<Rightarrow>
          sort_values_desc cs_total_pollution (company_stats_grouped (data st') totals) company_stats)"

text \<open>
  The tie rule of the specification, for comparison with \<open>outlet_type_agg\<close>: among the
  most frequent values, the one met first in input order.
\<close>

definition first_encountered_mode :: "string option list \<Rightarrow> string option" where
  "first_encountered_mode x =
     (let vs = dropna x in
      if vs = [] then None
      else (let best = Max (set (map (count_list vs) vs))
            in Some (hd (filter (\<lambda>v. count_list vs v = best) vs))))"

section \<open>Spatial clustering\<close>

text \<open>
  \<open>StandardScaler().fit_transform\<close> on the two coordinate columns. Each column is centred
  on the mean and divided by the population standard deviation of its values present; a
  column whose deviation is 0 is divided by 1. A missing value is left out of mean and
  deviation and stays missing in the result. An array with no row is refused.
\<close>

definition column_mean :: "real list \<Rightarrow> real" where
  "column_mean vs = sum_list vs / real (length vs)"

definition column_var :: "real list \<Rightarrow> real" where
  "column_var vs = sum_list (map (\<lambda>x. (x - column_mean vs)\<^sup>2) vs) / real (length vs)"

definition scale_column :: "real option list \<Rightarrow> real option list" where
  "scale_column col =
     (let vs = dropna col in
      if vs = [] then map (\<lambda>_. None) col
      else (let m = column_mean vs;
                s = sqrt (column_var vs);
                scale = (if s = 0 then 1 else s)
            in map (map_option (\<lambda>x. (x - m) / scale)) col))"

definition StandardScaler_fit_transform ::
  "(real option \<times> real option) list \<Rightarrow> error + (real option \<times> real option) list" where
  "StandardScaler_fit_transform X =
     (if X = [] then Inl ValueError
      else Inr (zip (scale_column (map fst X)) (scale_column (map snd X))))"

text \<open>
  The input check of \<open>DBSCAN.fit\<close>: an array with a missing value, or with no row, raises
  \<open>ValueError\<close>.
\<close>

fun finite_point :: "real option \<times> real option \<Rightarrow> (real \<times> real) option" where
  "finite_point (Some a, Some b) = Some (a, b)"
| "finite_point _ = None"

definition check_array :: "(real option \<times> real option) list \<Rightarrow> error + (real \<times> real) list" where
  "check_array X =
     (case those (map finite_point X) of
        None \<Rightarrow> Inl ValueError
      | Some P \<Rightarrow> if P = [] then Inl ValueError else Inr P)"

text \<open>The neighbours of every point: the indices of the points at distance at most \<open>eps\<close>.\<close>

definition euclidean :: "real \<times> real \<Rightarrow> real \<times> real \<Rightarrow> real" where
  "euclidean p q = sqrt ((fst p - fst q)\<^sup>2 + (snd p - snd q)\<^sup>2)"

definition radius_neighbors :: "real \<Rightarrow> (real \<times> real) list \<Rightarrow> nat list list" where
  "radius_neighbors eps P =
     map (\<lambda>p. filter (\<lambda>j. euclidean p (P ! j) \<le> eps) [0..<length P]) P"

text \<open>
  \<open>dbscan_inner\<close>, the labelling loop of the library. The body of its inner loop: an
  unlabelled point takes the current label and, when it is a core point, pushes its
  unlabelled neighbours. The indices on the stack are indices of points; an index past
  the end, which the library never meets, is passed over.
\<close>

definition push_unlabelled :: "int list \<Rightarrow> nat list \<Rightarrow> nat list \<Rightarrow> nat list" where
  "push_unlabelled labels neighb stack =
     fold (\<lambda>v s. if labels ! v = - 1 then v # s else s) neighb stack"

definition dbscan_visit ::
  "bool list \<Rightarrow> nat list list \<Rightarrow> nat \<Rightarrow> nat \<Rightarrow> nat list \<Rightarrow> int list \<Rightarrow> int list \<times> nat list" where
  "dbscan_visit is_core neighborhoods label_num i stack labels =
     (if i < length labels \<and> labels ! i = - 1 then
        (let labels1 = labels[i := int label_num] in
           (labels1,
            if is_core ! i then push_unlabelled labels1 (neighborhoods ! i) stack else stack))
      else (labels, stack))"

text \<open>
  The inner loop runs until the stack is empty. It ends because every turn either labels
  a point that had no label or takes one index off the stack.
\<close>

definition unlabelled_count :: "int list \<Rightarrow> nat" where
  "unlabelled_count labels = length (filter (\<lambda>l. l = - 1) labels)"

lemma unlabelled_count_update:
  assumes "i < length labels" "labels ! i = - 1" "c \<noteq> - 1"
  shows "unlabelled_count (labels[i := c]) < unlabelled_count labels"
proof -
  have "mset (labels[i := c]) = add_mset c (mset labels - {# - 1 #})"
    using assms(1,2) by (metis mset_update)
  then have "filter_mset (\<lambda>l. l = - 1) (mset (labels[i := c])) =
      filter_mset (\<lambda>l. l = - 1) (mset labels) - {# - 1 #}"
    using assms(3) by simp
  moreover have "- 1 \<in># filter_mset (\<lambda>l. l = - 1) (mset labels)"
    using assms(1,2) by (auto simp: in_set_conv_nth)
  ultimately have "size (filter_mset (\<lambda>l. l = - 1) (mset (labels[i := c]))) <
      size (filter_mset (\<lambda>l. l = - 1) (mset labels))"
    by (simp add: size_Diff1_less)
  then show ?thesis
    unfolding unlabelled_count_def by (metis mset_filter size_mset)
qed

lemma dbscan_visit_decreases:
  assumes "dbscan_visit is_core nbh c i stack labels = (labels1, stack1)"
  shows "unlabelled_count labels1 < unlabelled_count labels \<or> (labels1 = labels \<and> stack1 = stack)"
  using assms unlabelled_count_update [of i labels "int c"]
  by (auto simp: dbscan_visit_def Let_def split: if_splits)

function dbscan_dfs ::
  "bool list \<Rightarrow> nat list list \<Rightarrow> nat \<Rightarrow> nat \<Rightarrow> nat list \<Rightarrow> int list \<Rightarrow> int list" where
  "dbscan_dfs is_core neighborhoods label_num i stack labels =
     (case dbscan_visit is_core neighborhoods label_num i stack labels of
        (labels1, []) \<Rightarrow> labels1
      | (labels1, v # rest) \<Rightarrow> dbscan_dfs is_core neighborhoods label_num v rest labels1)"
  by pat_completeness auto
termination
  apply (relation "measures [\<lambda>(is_core, nbh, c, i, stack, labels). unlabelled_count labels,
                            \<lambda>(is_core, nbh, c, i, stack, labels). length stack]")
   apply simp
  apply (auto dest!: dbscan_visit_decreases [OF sym])
  done

declare dbscan_dfs.simps [simp del]

text \<open>
  The outer loop scans the points in input order; an unlabelled core point starts a new
  cluster, and the label number goes up after each cluster.
\<close>

fun dbscan_scan :: "bool list \<Rightarrow> nat list list \<Rightarrow> nat list \<Rightarrow> nat \<Rightarrow> int list \<Rightarrow> int list" where
  "dbscan_scan is_core neighborhoods [] label_num labels = labels"
| "dbscan_scan is_core neighborhoods (i # rest) label_num labels =
     (if labels ! i \<noteq> - 1 \<or> \<not> is_core ! i
      then dbscan_scan is_core neighborhoods rest label_num labels
      else dbscan_scan is_core neighborhoods rest (label_num + 1)
             (dbscan_dfs is_core neighborhoods label_num i [] labels))"

definition dbscan_inner :: "bool list \<Rightarrow> nat list list \<Rightarrow> int list \<Rightarrow> int list" where
  "dbscan_inner is_core neighborhoods labels =
     dbscan_scan is_core neighborhoods [0..<length labels] 0 labels"

text \<open>
  \<open>DBSCAN(eps, min_samples).fit_predict(X)\<close>: the parameters are checked, then the input;
  a point is a core point when it has at least \<open>min_samples\<close> neighbours, itself included;
  all labels start at -1.
\<close>

definition DBSCAN_fit_predict ::
  "real \<Rightarrow> nat \<Rightarrow> (real option \<times> real option) list \<Rightarrow> error + int list" where
  "DBSCAN_fit_predict eps min_samples X =
     (if eps \<le> 0 \<or> min_samples < 1 then Inl InvalidParameterError
      else (case check_array X of
              Inl e \<Rightarrow> Inl e
            | Inr P \<Rightarrow>
                (let neighborhoods = radius_neighbors eps P;
                     n_neighbors = map length neighborhoods;
                     labels = replicate (length P) (- 1);
                     core_samples = map (\<lambda>k. min_samples \<le> k) n_neighbors
                 in Inr (dbscan_inner core_samples neighborhoods labels))))"

text \<open>
  \<open>PollutionTracer.spatial_clustering\<close>: the labels are returned and stored in the column
  \<open>cluster\<close>; an exception of a library call leaves the method.
\<close>

definition coords :: "tracer \<Rightarrow> (real option \<times> real option) list" where
  "coords st = map (\<lambda>r. (longitude r, latitude r)) (data st)"

definition spatial_clustering :: "tracer \<Rightarrow> error + (int list \<times> tracer)" where
  "spatial_clustering st =
     (case StandardScaler_fit_transform (coords st) of
        Inl e \<Rightarrow> Inl e
      | Inr scaled \<Rightarrow>
          (case DBSCAN_fit_predict (3 / 10) 3 scaled of
             Inl e \<Rightarrow> Inl e
           | Inr clusters \<Rightarrow> Inr (clusters, st\<lparr> cluster := Some clusters \<rparr>)))"

section \<open>The report\<close>

text \<open>
  \<open>generate_trace_report\<close> reads the frame after both columns are assigned. A row of that
  frame with its label and its total:
\<close>

type_synonym labelled_row = "row \<times> int \<times> real"

definition row_cluster :: "labelled_row \<Rightarrow> int" where
  "row_cluster x = fst (snd x)"

definition row_total_pollution :: "labelled_row \<Rightarrow> real" where
  "row_total_pollution x = snd (snd x)"

definition labelled_rows :: "tracer \<Rightarrow> error + labelled_row list" where
  "labelled_rows st =
     (case cluster st of
        None \<Rightarrow> Inl KeyError
      | Some clusters \<Rightarrow>
          (case total_pollution st of
             None \<Rightarrow> Inl KeyError
           | Some totals \<Rightarrow> Inr (zip (data st) (zip clusters totals))))"

text \<open>
  Lines 87 to 90, the table \<open>cluster_info\<close>: the frame grouped by label; per group the
  label, the count of entity names present and the sum of \<open>total_pollution\<close>.
\<close>

definition cluster_data :: "labelled_row list \<Rightarrow> int \<Rightarrow> labelled_row list" where
  "cluster_data rows cluster_id = filter (\<lambda>x. row_cluster x = cluster_id) rows"

definition cluster_info :: "labelled_row list \<Rightarrow> (int \<times> nat \<times> real) list" where
  "cluster_info rows =
     map (\<lambda>k. let g = cluster_data rows k in
            (k, length (dropna (map (\<lambda>x. entity_name (fst x)) g)),
             sum_list (map row_total_pollution g)))
         (sort (remdups (map row_cluster rows)))"

text \<open>
  Lines 98 to 105, the loop over \<open>np.unique(clusters)\<close> that skips the label -1: per
  cluster the label, the number of its rows and the sum of their totals.
\<close>

definition np_unique :: "int list \<Rightarrow> int list" where
  "np_unique xs = sort (remdups xs)"

definition cluster_sections :: "labelled_row list \<Rightarrow> int list \<Rightarrow> (int \<times> nat \<times> real) list" where
  "cluster_sections rows clusters =
     map (\<lambda>cluster_id. let g = cluster_data rows cluster_id in
            (cluster_id, length g, sum_list (map row_total_pollution g)))
         (filter (\<lambda>cluster_id. cluster_id \<noteq> - 1) (np_unique clusters))"



section \<open>Vocabulary of the properties and sample inputs\<close>

text \<open>The rows of one entity, in input order.\<close>

definition entity_rows :: "row list \<Rightarrow> string \<Rightarrow> row list" where
  "entity_rows rows k = filter (\<lambda>r. entity_name r = Some k) rows"




definition sample_row ::
  "string \<Rightarrow> string option \<Rightarrow> real option \<Rightarrow> real option \<Rightarrow> real option \<Rightarrow> real option \<Rightarrow> row" where
  "sample_row e t x y w p =
     \<lparr> entity_name = Some e, outlet_type = t, longitude = x, latitude = y, wastewater = w,
       main_pollutant = p, ammonia_nitrogen = None, total_phosphorus = None,
       total_nitrogen = None \<rparr>"

definition sample_tracer :: "row list \<Rightarrow> tracer" where
  "sample_tracer rows = \<lparr> data = rows, cluster = None, total_pollution = None \<rparr>"

text \<open>Vocabulary for the labelling loop of the clustering.\<close>

text \<open>The indices without a label.\<close>

definition unlabelled :: "int list \<Rightarrow> nat set" where
  "unlabelled L = {v. v < length L \<and> L ! v = - 1}"

text \<open>
  One expansion step of the search: from an unlabelled core point to an unlabelled
  neighbour.
\<close>

definition expand_step :: "bool list \<Rightarrow> nat list list \<Rightarrow> int list \<Rightarrow> (nat \<times> nat) set" where
  "expand_step is_core nbh L =
     {(u, v). u \<in> unlabelled L \<and> v \<in> unlabelled L \<and> is_core ! u \<and> v \<in> set (nbh ! u)}"

definition reached :: "bool list \<Rightarrow> nat list list \<Rightarrow> int list \<Rightarrow> nat set \<Rightarrow> nat set" where
  "reached is_core nbh L S = (expand_step is_core nbh L)\<^sup>* `` (S \<inter> unlabelled L)"

text \<open>The labels after the points of \<open>R\<close> took the label \<open>c\<close>.\<close>

definition paint :: "nat \<Rightarrow> nat set \<Rightarrow> int list \<Rightarrow> int list" where
  "paint c R L = map (\<lambda>v. if v \<in> R then int c else L ! v) [0..<length L]"

text \<open>
  The neighbour lists of \<open>n\<close> points: one list per point, of indices of points, and
  symmetric.
\<close>

definition wf_neighbors :: "nat \<Rightarrow> nat list list \<Rightarrow> bool" where
  "wf_neighbors n nbh \<longleftrightarrow>
     length nbh = n \<and> (\<forall>u < n. \<forall>v \<in> set (nbh ! u). v < n)
     \<and> (\<forall>u < n. \<forall>v \<in> set (nbh ! u). u \<in> set (nbh ! v))"

text \<open>Two core points that are neighbours.\<close>

definition core_adj :: "bool list \<Rightarrow> nat list list \<Rightarrow> nat \<Rightarrow> (nat \<times> nat) set" where
  "core_adj is_core nbh n =
     {(u, v). u < n \<and> v < n \<and> is_core ! u \<and> is_core ! v \<and> v \<in> set (nbh ! u)}"

text \<open>
  What holds of the labels between two turns of the outer loop, \<open>D\<close> being the points
  scanned so far and \<open>c\<close> the next label number.
\<close>

definition scan_inv ::
  "bool list \<Rightarrow> nat list list \<Rightarrow> nat \<Rightarrow> nat set \<Rightarrow> nat \<Rightarrow> int list \<Rightarrow> bool" where
  "scan_inv is_core nbh n D c L \<longleftrightarrow>
     length L = n
     \<and> (\<forall>u < n. L ! u = - 1 \<or> (0 \<le> L ! u \<and> L ! u < int c))
     \<and> (\<forall>u < n. u \<in> D \<and> is_core ! u \<longrightarrow> L ! u \<noteq> - 1)
     \<and> (\<forall>u < n. \<forall>v \<in> set (nbh ! u). is_core ! u \<and> L ! u \<noteq> - 1 \<longrightarrow>
            L ! v \<noteq> - 1 \<and> (is_core ! v \<longrightarrow> L ! v = L ! u))
     \<and> (\<forall>u < n. \<forall>v < n. is_core ! u \<and> is_core ! v \<and> L ! u \<noteq> - 1 \<and> L ! u = L ! v \<longrightarrow>
            (u, v) \<in> (core_adj is_core nbh n)\<^sup>*)
     \<and> (\<forall>v < n. \<not> is_core ! v \<and> L ! v \<noteq> - 1 \<longrightarrow>
            (\<exists>u < n. is_core ! u \<and> v \<in> set (nbh ! u) \<and> L ! u = L ! v))"

section \<open>Preprocessing keeps every record\<close>



section \<open>Entity statistics: auxiliary facts\<close>



lemma pollution_analysis_stats:
  assumes "pollution_analysis st company_stats st'"
  shows "sort_values_desc cs_total_pollution
           (company_stats_grouped (data st) (map row_total (data st))) company_stats"
  using assms by (auto simp: pollution_analysis_def assign_total_pollution_def)

lemma pollution_analysis_set:
  assumes "pollution_analysis st company_stats st'"
  shows "set company_stats = set (company_stats_grouped (data st) (map row_total (data st)))"
  using pollution_analysis_stats [OF assms] unfolding sort_values_desc_def
  by (metis set_mset_mset)

lemma company_group_rows:
  "map fst (company_group rows (map f rows) k) = entity_rows rows k"
  unfolding company_group_def entity_rows_def
  by (induction rows) auto

lemma company_group_totals:
  "map snd (company_group rows (map f rows) k) = map f (entity_rows rows k)"
  unfolding company_group_def entity_rows_def
  by (induction rows) auto

lemma company_group_field:
  "map (\<lambda>(r, t). g r) (company_group rows (map f rows) k) = map g (entity_rows rows k)"
  unfolding company_group_def entity_rows_def
  by (induction rows) auto

lemma set_dropna: "set (dropna xs) = {v. Some v \<in> set xs}"
  by (induction xs rule: dropna.induct) auto

lemma group_keys_set: "set (group_keys ks) = {k. Some k \<in> set ks}"
  by (simp add: group_keys_def set_dropna)

lemma company_stats_grouped_mem:
  "s \<in> set (company_stats_grouped rows (map row_total rows)) \<longleftrightarrow>
     (\<exists>k. Some k \<in> entity_name ` set rows \<and>
       s = \<lparr> cs_entity = k,
             cs_total_pollution = sum_list (map row_total (entity_rows rows k)),
             cs_wastewater = sum_skipna (map wastewater (entity_rows rows k)),
             cs_outlet_type = outlet_type_agg (map outlet_type (entity_rows rows k)) \<rparr>)"
proof -
  show ?thesis
    unfolding company_stats_grouped_def Let_def company_group_field company_group_totals
    by (auto simp: group_keys_set)
qed


lemma series_mode_Nil: "dropna x = [] \<Longrightarrow> series_mode x = []"
  by (simp add: series_mode_def)

lemma series_mode_set:
  assumes "dropna x \<noteq> []"
  shows "set (series_mode x) =
           {v \<in> set (dropna x). \<forall>w. count_list (dropna x) w \<le> count_list (dropna x) v}"
proof -
  let ?vs = "dropna x"
  let ?best = "Max (set (map (count_list ?vs) ?vs))"
  have fin: "finite (set (map (count_list ?vs) ?vs))" by simp
  have ne: "set (map (count_list ?vs) ?vs) \<noteq> {}" using assms by simp
  have upper: "count_list ?vs w \<le> ?best" for w
  proof (cases "w \<in> set ?vs")
    case True
    then show ?thesis by (intro Max_ge) auto
  next
    case False
    then show ?thesis by (simp add: count_list_0_iff)
  qed
  have attained: "\<exists>u \<in> set ?vs. count_list ?vs u = ?best"
    using Max_in [OF fin ne] by auto
  have "count_list ?vs v = ?best \<longleftrightarrow> (\<forall>w. count_list ?vs w \<le> count_list ?vs v)" for v
    using upper attained by (metis order_antisym)
  then show ?thesis
    using assms by (auto simp: series_mode_def Let_def)
qed

lemma series_mode_sorted: "sorted (series_mode x)"
  by (simp add: series_mode_def Let_def)

lemma series_mode_nonempty:
  assumes "dropna x \<noteq> []"
  shows "series_mode x \<noteq> []"
proof -
  let ?vs = "dropna x"
  have fin: "finite (set (map (count_list ?vs) ?vs))" by simp
  have ne: "set (map (count_list ?vs) ?vs) \<noteq> {}" using assms by simp
  have "\<exists>u \<in> set ?vs. count_list ?vs u = Max (set (map (count_list ?vs) ?vs))"
    using Max_in [OF fin ne] by auto
  then have "set (series_mode x) \<noteq> {}"
    using assms by (auto simp: series_mode_def Let_def)
  then show ?thesis by auto
qed

lemma outlet_type_agg_None: "dropna x = [] \<Longrightarrow> outlet_type_agg x = None"
  by (simp add: outlet_type_agg_def series_mode_Nil)

lemma outlet_type_agg_Some:
  assumes "dropna x \<noteq> []"
  shows "\<exists>m. outlet_type_agg x = Some m \<and> m \<in> set (dropna x)
           \<and> (\<forall>w. count_list (dropna x) w \<le> count_list (dropna x) m)
           \<and> (\<forall>w \<in> set (dropna x).
                 count_list (dropna x) w = count_list (dropna x) m \<longrightarrow> m \<le> w)"
proof -
  obtain m ms where ms: "series_mode x = m # ms"
    using series_mode_nonempty [OF assms] by (cases "series_mode x") auto
  have m_in: "m \<in> set (series_mode x)" using ms by simp
  have least: "\<forall>w \<in> set (series_mode x). m \<le> w"
    using series_mode_sorted [of x] ms by auto
  have agg: "outlet_type_agg x = Some m"
    by (simp add: outlet_type_agg_def ms)
  show ?thesis
    using agg m_in least unfolding series_mode_set [OF assms]
    by (intro exI [of _ m]) auto
qed

lemmas sample_defs = sample_row_def sample_tracer_def

lemmas analysis_defs =
  pollution_analysis_def assign_total_pollution_def company_stats_grouped_def
  company_group_def group_keys_def sort_values_desc_def row_total_def sum_skipna_def
  outlet_type_agg_def series_mode_def

lemma sort_values_desc_exists: "\<exists>ys. sort_values_desc key xs ys"
proof -
  have "sorted (map key (sort_key key xs))" by simp
  then have "sorted_wrt (\<lambda>a b. key a \<ge> key b) (rev (sort_key key xs))"
    by (simp add: sorted_wrt_rev sorted_map)
  then show ?thesis
    unfolding sort_values_desc_def by (intro exI [of _ "rev (sort_key key xs)"]) simp
qed

lemma pollution_analysis_returns: "\<exists>company_stats st'. pollution_analysis st company_stats st'"
  using sort_values_desc_exists
  by (simp add: pollution_analysis_def assign_total_pollution_def)

section \<open>The derived total\<close>



section \<open>What the entity aggregation changes\<close>




section \<open>The dominant outlet type\<close>

text \<open>
  C4 as stated does not hold for ties: \<open>mode()\<close> returns the most frequent values
  sorted, so \<open>mode()[0]\<close> is the smallest of them, not the one met first. For an entity
  with the outlet types \<open>sewer\<close>, \<open>pipe\<close> in this order the code reports \<open>pipe\<close>.
\<close>

theorem dominant_outlet_type_not_first_encountered:
  "pollution_analysis
     (sample_tracer [sample_row ''A'' (Some ''sewer'') None None None None,
                     sample_row ''A'' (Some ''pipe'') None None None None])
     [\<lparr> cs_entity = ''A'', cs_total_pollution = 0, cs_wastewater = 0,
        cs_outlet_type = Some ''pipe'' \<rparr>]
     \<lparr> data = [sample_row ''A'' (Some ''sewer'') None None None None,
               sample_row ''A'' (Some ''pipe'') None None None None],
       cluster = None, total_pollution = Some [0, 0] \<rparr>
   \<and> first_encountered_mode (map outlet_type
        [sample_row ''A'' (Some ''sewer'') None None None None,
         sample_row ''A'' (Some ''pipe'') None None None None]) = Some ''sewer''
   \<and> outlet_type_agg (map outlet_type
        [sample_row ''A'' (Some ''sewer'') None None None None,
         sample_row ''A'' (Some ''pipe'') None None None None]) = Some ''pipe''"
  by (simp add: analysis_defs sample_defs first_encountered_mode_def)

text \<open>
  C4, amended. For every entity in the result, the dominant outlet type is a most frequent
  value among the outlet types present in the records of the entity, and among several
  most frequent values it is the least one in string order; when no outlet type is
  present it is the missing marker.
\<close>

theorem dominant_outlet_type_is_least_mode:
  assumes "pollution_analysis st company_stats st'" and "s \<in> set company_stats"
  shows "(dropna (map outlet_type (entity_rows (data st) (cs_entity s))) = []
            \<longrightarrow> cs_outlet_type s = None)
       \<and> (dropna (map outlet_type (entity_rows (data st) (cs_entity s))) \<noteq> []
            \<longrightarrow> (\<exists>m. cs_outlet_type s = Some m
                  \<and> m \<in> set (dropna (map outlet_type (entity_rows (data st) (cs_entity s))))
                  \<and> (\<forall>w. count_list (dropna (map outlet_type (entity_rows (data st) (cs_entity s)))) w
                         \<le> count_list (dropna (map outlet_type (entity_rows (data st) (cs_entity s)))) m)
                  \<and> (\<forall>w \<in> set (dropna (map outlet_type (entity_rows (data st) (cs_entity s)))).
                        count_list (dropna (map outlet_type (entity_rows (data st) (cs_entity s)))) w
                          = count_list (dropna (map outlet_type (entity_rows (data st) (cs_entity s)))) m
                        \<longrightarrow> m \<le> w)))"
proof -
  have "s \<in> set (company_stats_grouped (data st) (map row_total (data st)))"
    using pollution_analysis_set [OF assms(1)] assms(2) by simp
  then obtain k where
    s: "s = \<lparr> cs_entity = k,
             cs_total_pollution = sum_list (map row_total (entity_rows (data st) k)),
             cs_wastewater = sum_skipna (map wastewater (entity_rows (data st) k)),
             cs_outlet_type = outlet_type_agg (map outlet_type (entity_rows (data st) k)) \<rparr>"
    unfolding company_stats_grouped_mem by blast
  have k: "cs_entity s = k" and agg: "cs_outlet_type s = outlet_type_agg (map outlet_type (entity_rows (data st) k))"
    using s by simp_all
  show ?thesis
    unfolding k agg
    using outlet_type_agg_None [of "map outlet_type (entity_rows (data st) k)"]
      outlet_type_agg_Some [of "map outlet_type (entity_rows (data st) k)"]
    by blast
qed

theorem dominant_outlet_type_is_least_mode_witness:
  "pollution_analysis
     (sample_tracer [sample_row ''A'' (Some ''sewer'') None None None None,
                     sample_row ''A'' (Some ''pipe'') None None None None])
     [\<lparr> cs_entity = ''A'', cs_total_pollution = 0, cs_wastewater = 0,
        cs_outlet_type = Some ''pipe'' \<rparr>]
     \<lparr> data = [sample_row ''A'' (Some ''sewer'') None None None None,
               sample_row ''A'' (Some ''pipe'') None None None None],
       cluster = None, total_pollution = Some [0, 0] \<rparr>
   \<and> dropna (map outlet_type (entity_rows
        [sample_row ''A'' (Some ''sewer'') None None None None,
         sample_row ''A'' (Some ''pipe'') None None None None] ''A'')) = [''sewer'', ''pipe'']
   \<and> (\<exists>m. Some ''pipe'' = Some m \<and> m \<in> set [''sewer'', ''pipe''] \<and> m \<le> ''sewer'')"
proof -
  let ?rows = "[sample_row ''A'' (Some ''sewer'') None None None None,
                     sample_row ''A'' (Some ''pipe'') None None None None]"
  let ?s = "\<lparr> cs_entity = ''A'', cs_total_pollution = 0, cs_wastewater = 0,
        cs_outlet_type = Some ''pipe'' \<rparr>"
  let ?st' = "\<lparr> data = ?rows, cluster = None, total_pollution = Some [0::real, 0] \<rparr>"
  have h: "pollution_analysis (sample_tracer ?rows) [?s] ?st'"
    by (simp add: analysis_defs sample_defs)
  have d: "dropna (map outlet_type (entity_rows ?rows ''A'')) = [''sewer'', ''pipe'']"
    by (simp add: entity_rows_def sample_defs)
  have m: "?s \<in> set [?s]" by simp
  from dominant_outlet_type_is_least_mode [OF h m] d
  have "\<exists>m. Some ''pipe'' = Some m \<and> m \<in> set [''sewer'', ''pipe''] \<and> m \<le> ''sewer''"
    by (simp add: sample_tracer_def)
  with h d show ?thesis by blast
qed

text \<open>
  C10. An entity all of whose records lack the outlet type still has a row in the result
  of \<open>pollution_analysis\<close>, and its dominant outlet type is the missing marker
  \<open>None\<close>; the method has a result for every frame.
\<close>

theorem all_missing_outlet_type_gives_None:
  assumes "pollution_analysis st company_stats st'"
    and "r \<in> set (data st)" and "entity_name r = Some k"
    and "\<forall>r' \<in> set (data st). entity_name r' = Some k \<longrightarrow> outlet_type r' = None"
  shows "(\<exists>s \<in> set company_stats. cs_entity s = k \<and> cs_outlet_type s = None)
       \<and> (\<forall>s \<in> set company_stats. cs_entity s = k \<longrightarrow> cs_outlet_type s = None)
       \<and> (\<exists>stats st1. pollution_analysis st stats st1)"
proof -
  have none: "dropna (map outlet_type (entity_rows (data st) k)) = []"
  proof -
    have "set (dropna (map outlet_type (entity_rows (data st) k))) = {}"
      using assms(4) by (auto simp: set_dropna entity_rows_def)
    then show ?thesis by simp
  qed
  have set_eq: "set company_stats = set (company_stats_grouped (data st) (map row_total (data st)))"
    by (rule pollution_analysis_set [OF assms(1)])
  let ?s = "\<lparr> cs_entity = k,
             cs_total_pollution = sum_list (map row_total (entity_rows (data st) k)),
             cs_wastewater = sum_skipna (map wastewater (entity_rows (data st) k)),
             cs_outlet_type = outlet_type_agg (map outlet_type (entity_rows (data st) k)) \<rparr>"
  have "Some k \<in> entity_name ` set (data st)"
    using assms(2,3) by force
  then have "?s \<in> set company_stats"
    unfolding set_eq company_stats_grouped_mem by blast
  moreover have "cs_outlet_type ?s = None"
    using outlet_type_agg_None [OF none] by simp
  ultimately have ex: "\<exists>s \<in> set company_stats. cs_entity s = k \<and> cs_outlet_type s = None"
    by (intro bexI [of _ ?s]) auto
  have all: "\<forall>s \<in> set company_stats. cs_entity s = k \<longrightarrow> cs_outlet_type s = None"
  proof (intro ballI impI)
    fix s assume "s \<in> set company_stats" and sk: "cs_entity s = k"
    then obtain k' where s: "s = \<lparr> cs_entity = k',
             cs_total_pollution = sum_list (map row_total (entity_rows (data st) k')),
             cs_wastewater = sum_skipna (map wastewater (entity_rows (data st) k')),
             cs_outlet_type = outlet_type_agg (map outlet_type (entity_rows (data st) k')) \<rparr>"
      unfolding set_eq company_stats_grouped_mem by blast
    have "k' = k" using s sk by simp
    then show "cs_outlet_type s = None"
      using s outlet_type_agg_None [OF none] by simp
  qed
  show ?thesis using ex all pollution_analysis_returns [of st] by blast
qed

theorem all_missing_outlet_type_gives_None_witness:
  "pollution_analysis
     (sample_tracer [sample_row ''B'' None None None None (Some 3),
                     sample_row ''A'' (Some ''pipe'') None None None (Some 1),
                     sample_row ''B'' None None None None (Some 2)])
     [\<lparr> cs_entity = ''B'', cs_total_pollution = 5, cs_wastewater = 0, cs_outlet_type = None \<rparr>,
      \<lparr> cs_entity = ''A'', cs_total_pollution = 1, cs_wastewater = 0,
        cs_outlet_type = Some ''pipe'' \<rparr>]
     (assign_total_pollution
        (sample_tracer [sample_row ''B'' None None None None (Some 3),
                        sample_row ''A'' (Some ''pipe'') None None None (Some 1),
                        sample_row ''B'' None None None None (Some 2)]))
   \<and> (\<exists>s \<in> set [\<lparr> cs_entity = ''B'', cs_total_pollution = 5, cs_wastewater = 0,
                    cs_outlet_type = None \<rparr>,
                  \<lparr> cs_entity = ''A'', cs_total_pollution = 1, cs_wastewater = 0,
                    cs_outlet_type = Some ''pipe'' \<rparr>].
         cs_entity s = ''B'' \<and> cs_outlet_type s = None)"
proof -
  let ?rows = "[sample_row ''B'' None None None None (Some 3),
                     sample_row ''A'' (Some ''pipe'') None None None (Some 1),
                     sample_row ''B'' None None None None (Some 2)]"
  let ?cs = "[\<lparr> cs_entity = ''B'', cs_total_pollution = 5, cs_wastewater = 0, cs_outlet_type = None \<rparr>,
      \<lparr> cs_entity = ''A'', cs_total_pollution = 1, cs_wastewater = 0,
        cs_outlet_type = Some ''pipe'' \<rparr>]"
  have h: "pollution_analysis (sample_tracer ?rows) ?cs (assign_total_pollution (sample_tracer ?rows))"
    by (simp add: analysis_defs sample_defs)
  have r: "sample_row ''B'' None None None None (Some 3) \<in> set (data (sample_tracer ?rows))"
    by (simp add: sample_tracer_def)
  have e: "entity_name (sample_row ''B'' None None None None (Some 3)) = Some ''B''"
    by (simp add: sample_row_def)
  have a: "\<forall>r' \<in> set (data (sample_tracer ?rows)). entity_name r' = Some ''B'' \<longrightarrow> outlet_type r' = None"
    by (simp add: sample_defs)
  from all_missing_outlet_type_gives_None [OF h r e a] h show ?thesis
    by blast
qed

section \<open>The ranking of a cluster\<close>







section \<open>The labelling loop of the clustering\<close>

text \<open>
  The inner loop, started at the point \<open>i\<close> with the stack \<open>stack\<close>, gives the label
  \<open>c\<close> to exactly the unlabelled points that can be reached from \<open>i\<close> or from the stack
  through unlabelled core points, and changes no other label.
\<close>

lemma dbscan_dfs_stop:
  "dbscan_visit is_core nbh c i stack labels = (labels1, []) \<Longrightarrow>
   dbscan_dfs is_core nbh c i stack labels = labels1"
  by (subst dbscan_dfs.simps) simp

lemma dbscan_dfs_step:
  "dbscan_visit is_core nbh c i stack labels = (labels1, v # rest) \<Longrightarrow>
   dbscan_dfs is_core nbh c i stack labels = dbscan_dfs is_core nbh c v rest labels1"
  by (subst dbscan_dfs.simps) simp

lemma push_unlabelled_set:
  "set (push_unlabelled L nb stack) = {v \<in> set nb. L ! v = - 1} \<union> set stack"
  unfolding push_unlabelled_def
  by (induction nb arbitrary: stack) auto

lemma length_paint [simp]: "length (paint c R L) = length L"
  by (simp add: paint_def)

lemma nth_paint: "v < length L \<Longrightarrow> paint c R L ! v = (if v \<in> R then int c else L ! v)"
  by (simp add: paint_def)

lemma paint_empty: "paint c {} L = L"
  by (simp add: paint_def map_nth)

lemma paint_insert:
  assumes "i < length L"
  shows "paint c (insert i R) L = paint c R (L[i := int c])"
  using assms by (auto simp: paint_def nth_list_update)

lemma unlabelled_update:
  assumes "i < length L"
  shows "unlabelled (L[i := int c]) = unlabelled L - {i}"
  using assms by (auto simp: unlabelled_def nth_list_update)

lemma expand_step_update:
  assumes "i < length L"
  shows "expand_step is_core nbh (L[i := int c]) =
           {(u, v) \<in> expand_step is_core nbh L. u \<noteq> i \<and> v \<noteq> i}"
  unfolding expand_step_def unlabelled_update [OF assms] by auto

lemma reached_not_unlabelled:
  "i \<notin> unlabelled L \<Longrightarrow> reached is_core nbh L (insert i S) = reached is_core nbh L S"
  by (simp add: reached_def)

lemma reached_empty: "reached is_core nbh L {} = {}"
  by (simp add: reached_def)

lemma reached_subset: "reached is_core nbh L S \<subseteq> unlabelled L"
proof
  fix x assume "x \<in> reached is_core nbh L S"
  then obtain s where s: "s \<in> S \<inter> unlabelled L" and p: "(s, x) \<in> (expand_step is_core nbh L)\<^sup>*"
    by (auto simp: reached_def)
  from p s show "x \<in> unlabelled L"
    by (induction rule: rtrancl_induct) (auto simp: expand_step_def)
qed

text \<open>The step of the search at an unlabelled point.\<close>

lemma reached_visit:
  assumes i: "i \<in> unlabelled L"
    and succ: "succ \<inter> unlabelled (L[i := int c]) =
                 (if is_core ! i then set (nbh ! i) else {}) \<inter> unlabelled (L[i := int c])"
  shows "reached is_core nbh L (insert i S) =
           insert i (reached is_core nbh (L[i := int c]) (succ \<union> S))"
proof -
  let ?L1 = "L[i := int c]"
  let ?E = "expand_step is_core nbh L"
  let ?E1 = "expand_step is_core nbh ?L1"
  have len: "i < length L" using i by (simp add: unlabelled_def)
  have U1: "unlabelled ?L1 = unlabelled L - {i}" by (rule unlabelled_update [OF len])
  have E1: "?E1 = {(u, v) \<in> ?E. u \<noteq> i \<and> v \<noteq> i}" by (rule expand_step_update [OF len])
  have E1_sub: "?E1\<^sup>* \<subseteq> ?E\<^sup>*"
    by (rule rtrancl_mono) (auto simp: E1)
  show ?thesis
  proof (intro equalityI subsetI)
    fix x assume "x \<in> reached is_core nbh L (insert i S)"
    then obtain s where s: "s \<in> insert i S" "s \<in> unlabelled L" and p: "(s, x) \<in> ?E\<^sup>*"
      by (auto simp: reached_def)
    from p have "x = i \<or> x \<in> reached is_core nbh ?L1 (succ \<union> S)"
    proof (induction rule: rtrancl_induct)
      case base
      then show ?case using s by (auto simp: reached_def U1)
    next
      case (step y z)
      show ?case
      proof (cases "z = i")
        case True then show ?thesis by simp
      next
        case False
        have yz: "y \<in> unlabelled L" "z \<in> unlabelled L" "is_core ! y" "z \<in> set (nbh ! y)"
          using step.hyps(2) by (auto simp: expand_step_def)
        have z1: "z \<in> unlabelled ?L1" using yz(2) False by (simp add: U1)
        show ?thesis
        proof (cases "y = i")
          case True
          then have "z \<in> succ \<inter> unlabelled ?L1"
            using succ yz z1 by auto
          then have "z \<in> reached is_core nbh ?L1 (succ \<union> S)"
            by (auto simp: reached_def)
          then show ?thesis by simp
        next
          case yi: False
          then have "y \<in> reached is_core nbh ?L1 (succ \<union> S)"
            using step.IH by simp
          moreover have "(y, z) \<in> ?E1"
            using step.hyps(2) yi False by (simp add: E1)
          ultimately have "z \<in> reached is_core nbh ?L1 (succ \<union> S)"
            unfolding reached_def by (meson Image_iff rtrancl.rtrancl_into_rtrancl)
          then show ?thesis by simp
        qed
      qed
    qed
    then show "x \<in> insert i (reached is_core nbh ?L1 (succ \<union> S))" by simp
  next
    fix x assume "x \<in> insert i (reached is_core nbh ?L1 (succ \<union> S))"
    then consider "x = i" | "x \<in> reached is_core nbh ?L1 (succ \<union> S)" by auto
    then show "x \<in> reached is_core nbh L (insert i S)"
    proof cases
      case 1
      then show ?thesis using i by (auto simp: reached_def)
    next
      case 2
      then obtain s where s: "s \<in> succ \<union> S" "s \<in> unlabelled ?L1" and p: "(s, x) \<in> ?E1\<^sup>*"
        by (auto simp: reached_def)
      have p': "(s, x) \<in> ?E\<^sup>*" using p E1_sub by blast
      have sU: "s \<in> unlabelled L" using s(2) by (simp add: U1)
      show ?thesis
      proof (cases "s \<in> S")
        case True
        then show ?thesis using sU p' by (auto simp: reached_def)
      next
        case False
        then have "s \<in> succ \<inter> unlabelled ?L1" using s by simp
        then have "is_core ! i" "s \<in> set (nbh ! i)"
          using succ by (auto split: if_splits)
        then have "(i, s) \<in> ?E" using i sU by (simp add: expand_step_def)
        then have "(i, x) \<in> ?E\<^sup>*" using p' by (meson converse_rtrancl_into_rtrancl)
        then show ?thesis using i by (auto simp: reached_def)
      qed
    qed
  qed
qed

lemma dbscan_dfs_paint:
  "dbscan_dfs is_core nbh c i stack L =
     paint c (reached is_core nbh L (insert i (set stack))) L"
proof (induction is_core nbh c i stack L rule: dbscan_dfs.induct)
  case (1 is_core nbh c i stack L)
  show ?case
  proof (cases "i \<in> unlabelled L")
    case False
    then have visit: "dbscan_visit is_core nbh c i stack L = (L, stack)"
      by (auto simp: dbscan_visit_def unlabelled_def)
    have r: "reached is_core nbh L (insert i (set stack)) = reached is_core nbh L (set stack)"
      by (rule reached_not_unlabelled [OF False])
    show ?thesis
    proof (cases stack)
      case Nil
      have "reached is_core nbh L {i} = {}"
        using reached_not_unlabelled [OF False, where S = "{}"] by (simp add: reached_empty)
      then show ?thesis
        using dbscan_dfs_stop [of is_core nbh c i stack L L] visit Nil
        by (simp add: paint_empty)
    next
      case (Cons v rest)
      have "dbscan_dfs is_core nbh c i stack L = dbscan_dfs is_core nbh c v rest L"
        using dbscan_dfs_step [of is_core nbh c i stack L L v rest] visit Cons by simp
      also have "\<dots> = paint c (reached is_core nbh L (insert v (set rest))) L"
        by (rule "1.IH" [OF visit [symmetric] Cons])
      finally show ?thesis using r unfolding Cons by simp
    qed
  next
    case True
    let ?L1 = "L[i := int c]"
    let ?stack1 = "if is_core ! i then push_unlabelled ?L1 (nbh ! i) stack else stack"
    have len: "i < length L" using True by (simp add: unlabelled_def)
    have visit: "dbscan_visit is_core nbh c i stack L = (?L1, ?stack1)"
      using True by (simp add: dbscan_visit_def unlabelled_def Let_def)
    define succ where "succ = (if is_core ! i then {v \<in> set (nbh ! i). ?L1 ! v = - 1} else {})"
    have stack1: "set ?stack1 = succ \<union> set stack"
      by (simp add: succ_def push_unlabelled_set)
    have succ: "succ \<inter> unlabelled ?L1 = (if is_core ! i then set (nbh ! i) else {}) \<inter> unlabelled ?L1"
      by (auto simp: succ_def unlabelled_def)
    have key: "reached is_core nbh L (insert i (set stack)) =
        insert i (reached is_core nbh ?L1 (set ?stack1))"
      unfolding stack1 by (rule reached_visit [OF True succ])
    show ?thesis
    proof (cases ?stack1)
      case Nil
      then have "dbscan_dfs is_core nbh c i stack L = ?L1"
        using dbscan_dfs_stop [of is_core nbh c i stack L ?L1] visit by simp
      moreover have "reached is_core nbh L (insert i (set stack)) = {i}"
        unfolding key using Nil by (simp add: reached_empty)
      ultimately show ?thesis
        using paint_insert [OF len, of c "{}"] by (simp add: paint_empty)
    next
      case (Cons v rest)
      have "dbscan_dfs is_core nbh c i stack L = dbscan_dfs is_core nbh c v rest ?L1"
        using dbscan_dfs_step [of is_core nbh c i stack L ?L1 v rest] visit Cons by simp
      also have "\<dots> = paint c (reached is_core nbh ?L1 (insert v (set rest))) ?L1"
        by (rule "1.IH" [OF visit [symmetric] Cons])
      also have "\<dots> = paint c (reached is_core nbh ?L1 (set ?stack1)) ?L1"
        using Cons by simp
      also have "\<dots> = paint c (insert i (reached is_core nbh ?L1 (set ?stack1))) L"
        by (rule paint_insert [OF len, symmetric])
      finally show ?thesis by (simp add: key)
    qed
  qed
qed

text \<open>The outer loop keeps \<open>scan_inv\<close>.\<close>

lemma wf_neighbors_range:
  "wf_neighbors n nbh \<Longrightarrow> u < n \<Longrightarrow> v \<in> set (nbh ! u) \<Longrightarrow> v < n"
  unfolding wf_neighbors_def by blast

lemma wf_neighbors_sym:
  "wf_neighbors n nbh \<Longrightarrow> u < n \<Longrightarrow> v \<in> set (nbh ! u) \<Longrightarrow> u \<in> set (nbh ! v)"
  unfolding wf_neighbors_def by blast

lemma core_adj_sym:
  assumes "wf_neighbors n nbh"
  shows "sym (core_adj is_core nbh n)"
proof (rule symI)
  fix u v assume "(u, v) \<in> core_adj is_core nbh n"
  then have h: "u < n" "v < n" "is_core ! u" "is_core ! v" "v \<in> set (nbh ! u)"
    unfolding core_adj_def by blast+
  have "u \<in> set (nbh ! v)" by (rule wf_neighbors_sym [OF assms h(1) h(5)])
  then show "(v, u) \<in> core_adj is_core nbh n"
    unfolding core_adj_def using h by blast
qed

lemma core_adj_rtrancl_sym:
  assumes "wf_neighbors n nbh" and "(u, v) \<in> (core_adj is_core nbh n)\<^sup>*"
  shows "(v, u) \<in> (core_adj is_core nbh n)\<^sup>*"
  using sym_rtrancl [OF core_adj_sym [OF assms(1)]] assms(2) by (meson symD)

text \<open>The points reached from an unlabelled core point \<open>i\<close>.\<close>

lemma reached_start:
  "i \<in> unlabelled L \<Longrightarrow> i \<in> reached is_core nbh L {i}"
  by (simp add: reached_def)

lemma reached_closed:
  assumes "u \<in> reached is_core nbh L S" and "is_core ! u" and "v \<in> set (nbh ! u)"
    and "v \<in> unlabelled L"
  shows "v \<in> reached is_core nbh L S"
proof -
  have "u \<in> unlabelled L" using assms(1) reached_subset by blast
  then have "(u, v) \<in> expand_step is_core nbh L"
    using assms(2,3,4) by (simp add: expand_step_def)
  then show ?thesis
    using assms(1) unfolding reached_def by (meson Image_iff rtrancl.rtrancl_into_rtrancl)
qed

lemma reached_core_connected:
  assumes "u \<in> reached is_core nbh L {i}" and "is_core ! u" and "length L = n"
  shows "(i, u) \<in> (core_adj is_core nbh n)\<^sup>*"
proof -
  have p: "(i, u) \<in> (expand_step is_core nbh L)\<^sup>*"
    using assms(1) by (auto simp: reached_def)
  from p have "is_core ! u \<longrightarrow> (i, u) \<in> (core_adj is_core nbh n)\<^sup>*"
  proof (induction rule: rtrancl_induct)
    case base
    then show ?case by simp
  next
    case (step y z)
    have yz: "y \<in> unlabelled L" "z \<in> unlabelled L" "is_core ! y" "z \<in> set (nbh ! y)"
      using step.hyps(2) by (auto simp: expand_step_def)
    show ?case
    proof
      assume "is_core ! z"
      then have "(y, z) \<in> core_adj is_core nbh n"
        using yz assms(3) by (simp add: core_adj_def unlabelled_def)
      moreover have "(i, y) \<in> (core_adj is_core nbh n)\<^sup>*"
        using step.IH yz(3) by simp
      ultimately show "(i, z) \<in> (core_adj is_core nbh n)\<^sup>*" by simp
    qed
  qed
  then show ?thesis using assms(2) by simp
qed

lemma reached_border:
  assumes "v \<in> reached is_core nbh L {i}" and "v \<noteq> i"
  shows "\<exists>y \<in> reached is_core nbh L {i}. is_core ! y \<and> v \<in> set (nbh ! y)"
proof -
  have i: "i \<in> unlabelled L" and p: "(i, v) \<in> (expand_step is_core nbh L)\<^sup>*"
    using assms(1) by (auto simp: reached_def)
  from p assms(2) obtain y where y: "(i, y) \<in> (expand_step is_core nbh L)\<^sup>*"
      and yv: "(y, v) \<in> expand_step is_core nbh L"
    by (metis rtranclE)
  have "y \<in> reached is_core nbh L {i}"
    using i y by (auto simp: reached_def)
  then show ?thesis
    using yv by (auto simp: expand_step_def)
qed

lemma scan_inv_skip:
  assumes "scan_inv is_core nbh n D c L" and "L ! i \<noteq> - 1 \<or> \<not> is_core ! i"
  shows "scan_inv is_core nbh n (insert i D) c L"
proof -
  have "\<forall>u < n. u \<in> D \<and> is_core ! u \<longrightarrow> L ! u \<noteq> - 1"
    using assms(1) unfolding scan_inv_def by (elim conjE)
  then have "\<forall>u < n. u \<in> insert i D \<and> is_core ! u \<longrightarrow> L ! u \<noteq> - 1"
    using assms(2) by blast
  then show ?thesis
    using assms(1) unfolding scan_inv_def by (elim conjE, intro conjI)
qed

lemma scan_inv_dfs:
  assumes inv: "scan_inv is_core nbh n D c L"
    and wf: "wf_neighbors n nbh"
    and i: "i < n" "L ! i = - 1" "is_core ! i"
  shows "scan_inv is_core nbh n (insert i D) (c + 1) (dbscan_dfs is_core nbh c i [] L)"
proof -
  define R where "R = reached is_core nbh L {i}"
  define L' where "L' = paint c R L"
  have dfs: "dbscan_dfs is_core nbh c i [] L = L'"
    by (simp add: dbscan_dfs_paint R_def L'_def)
  have inv':
    "length L = n
     \<and> (\<forall>u < n. L ! u = - 1 \<or> (0 \<le> L ! u \<and> L ! u < int c))
     \<and> (\<forall>u < n. u \<in> D \<and> is_core ! u \<longrightarrow> L ! u \<noteq> - 1)
     \<and> (\<forall>u < n. \<forall>v \<in> set (nbh ! u). is_core ! u \<and> L ! u \<noteq> - 1 \<longrightarrow>
            L ! v \<noteq> - 1 \<and> (is_core ! v \<longrightarrow> L ! v = L ! u))
     \<and> (\<forall>u < n. \<forall>v < n. is_core ! u \<and> is_core ! v \<and> L ! u \<noteq> - 1 \<and> L ! u = L ! v \<longrightarrow>
            (u, v) \<in> (core_adj is_core nbh n)\<^sup>*)
     \<and> (\<forall>v < n. \<not> is_core ! v \<and> L ! v \<noteq> - 1 \<longrightarrow>
            (\<exists>u < n. is_core ! u \<and> v \<in> set (nbh ! u) \<and> L ! u = L ! v))"
    using inv unfolding scan_inv_def .
  note I1 = inv' [THEN conjunct1]
  note I2 = inv' [THEN conjunct2, THEN conjunct1]
  note I3 = inv' [THEN conjunct2, THEN conjunct2, THEN conjunct1]
  note I4 = inv' [THEN conjunct2, THEN conjunct2, THEN conjunct2, THEN conjunct1]
  note I5 = inv' [THEN conjunct2, THEN conjunct2, THEN conjunct2, THEN conjunct2, THEN conjunct1]
  note I6 = inv' [THEN conjunct2, THEN conjunct2, THEN conjunct2, THEN conjunct2, THEN conjunct2]
  have len: "length L = n"
    by (rule I1)
  have range: "L ! u = - 1 \<or> (0 \<le> L ! u \<and> L ! u < int c)" if "u < n" for u
    using I2 that by blast
  have scanned: "L ! u \<noteq> - 1" if "u < n" "u \<in> D" "is_core ! u" for u
    using I3 that by blast
  have closed: "L ! v \<noteq> - 1 \<and> (is_core ! v \<longrightarrow> L ! v = L ! u)"
    if "u < n" "v \<in> set (nbh ! u)" "is_core ! u" "L ! u \<noteq> - 1" for u v
    using I4 that by blast
  have conn: "(u, v) \<in> (core_adj is_core nbh n)\<^sup>*"
    if "u < n" "v < n" "is_core ! u" "is_core ! v" "L ! u \<noteq> - 1" "L ! u = L ! v" for u v
    using I5 that by blast
  have border: "\<exists>u < n. is_core ! u \<and> v \<in> set (nbh ! u) \<and> L ! u = L ! v"
    if "v < n" "\<not> is_core ! v" "L ! v \<noteq> - 1" for v
    using I6 that by blast
  have nb_range: "\<And>u v. u < n \<Longrightarrow> v \<in> set (nbh ! u) \<Longrightarrow> v < n"
    by (rule wf_neighbors_range [OF wf])
  have nb_sym: "\<And>u v. u < n \<Longrightarrow> v < n \<Longrightarrow> v \<in> set (nbh ! u) \<Longrightarrow> u \<in> set (nbh ! v)"
    by (rule wf_neighbors_sym [OF wf])
  have iU: "i \<in> unlabelled L" using i len by (simp add: unlabelled_def)
  have iR: "i \<in> R" unfolding R_def by (rule reached_start [OF iU])
  have R_unl: "u < n \<and> L ! u = - 1" if "u \<in> R" for u
  proof -
    have "u \<in> unlabelled L"
      using reached_subset [of is_core nbh L "{i}"] that unfolding R_def by blast
    then show ?thesis using len by (simp add: unlabelled_def)
  qed
  have new: "L' ! u = (if u \<in> R then int c else L ! u)" if "u < n" for u
    unfolding L'_def using that len by (simp add: nth_paint)
  have old: "u \<notin> R \<and> L' ! u = L ! u" if "u < n" "L ! u \<noteq> - 1" for u
  proof -
    have "u \<notin> R" using R_unl [of u] that(2) by blast
    then show ?thesis using new [OF that(1)] by simp
  qed
  have p1: "length L' = n" using len by (simp add: L'_def)
  have p2: "\<forall>u < n. L' ! u = - 1 \<or> (0 \<le> L' ! u \<and> L' ! u < int (c + 1))"
  proof (intro allI impI)
    fix u assume u: "u < n"
    show "L' ! u = - 1 \<or> (0 \<le> L' ! u \<and> L' ! u < int (c + 1))"
      using new [OF u] range [OF u] by auto
  qed
  have p3: "\<forall>u < n. u \<in> insert i D \<and> is_core ! u \<longrightarrow> L' ! u \<noteq> - 1"
  proof (intro allI impI)
    fix u assume u: "u < n" and h: "u \<in> insert i D \<and> is_core ! u"
    show "L' ! u \<noteq> - 1"
    proof (cases "u = i")
      case True
      then show ?thesis using new [OF i(1)] iR by simp
    next
      case False
      then have lu: "L ! u \<noteq> - 1" using scanned [OF u] h by simp
      then show ?thesis using old [OF u lu] by simp
    qed
  qed
  have p4: "\<forall>u < n. \<forall>v \<in> set (nbh ! u). is_core ! u \<and> L' ! u \<noteq> - 1 \<longrightarrow>
            L' ! v \<noteq> - 1 \<and> (is_core ! v \<longrightarrow> L' ! v = L' ! u)"
  proof (intro allI ballI impI)
    fix u v assume u: "u < n" and v: "v \<in> set (nbh ! u)" and h: "is_core ! u \<and> L' ! u \<noteq> - 1"
    have vn: "v < n" by (rule nb_range [OF u v])
    show "L' ! v \<noteq> - 1 \<and> (is_core ! v \<longrightarrow> L' ! v = L' ! u)"
    proof (cases "u \<in> R")
      case True
      have lu': "L' ! u = int c" using new [OF u] True by simp
      show ?thesis
      proof (cases "L ! v = - 1")
        case True
        then have "v \<in> unlabelled L" using vn len by (simp add: unlabelled_def)
        then have "v \<in> R"
          unfolding R_def using reached_closed \<open>u \<in> R\<close> h v by (simp add: R_def)
        then show ?thesis using new [OF vn] lu' by simp
      next
        case False
        have keep: "v \<notin> R \<and> L' ! v = L ! v" by (rule old [OF vn False])
        have "\<not> is_core ! v"
        proof
          assume cv: "is_core ! v"
          have "u \<in> set (nbh ! v)" by (rule nb_sym [OF u vn v])
          then have "L ! u \<noteq> - 1" using closed [OF vn _ cv False] by simp
          then show False using R_unl [OF True] by simp
        qed
        then show ?thesis using keep False by simp
      qed
    next
      case False
      then have lu: "L' ! u = L ! u" using new [OF u] by simp
      then have lu1: "L ! u \<noteq> - 1" using h by simp
      have c: "L ! v \<noteq> - 1 \<and> (is_core ! v \<longrightarrow> L ! v = L ! u)"
        using closed [OF u v _ lu1] h by simp
      then have "v \<notin> R \<and> L' ! v = L ! v" using old [OF vn] by simp
      then show ?thesis using c lu by simp
    qed
  qed
  have p5: "\<forall>u < n. \<forall>v < n. is_core ! u \<and> is_core ! v \<and> L' ! u \<noteq> - 1 \<and> L' ! u = L' ! v \<longrightarrow>
            (u, v) \<in> (core_adj is_core nbh n)\<^sup>*"
  proof (intro allI impI)
    fix u v assume u: "u < n" and v: "v < n"
      and h: "is_core ! u \<and> is_core ! v \<and> L' ! u \<noteq> - 1 \<and> L' ! u = L' ! v"
    have neq: "L' ! w \<noteq> int c" if w: "w < n" "w \<notin> R" for w
      using new [OF w(1)] range [OF w(1)] w(2) by auto
    show "(u, v) \<in> (core_adj is_core nbh n)\<^sup>*"
    proof (cases "u \<in> R")
      case True
      then have "L' ! u = int c" using new [OF u] by simp
      then have "v \<in> R" using neq [OF v] h by auto
      have "(i, u) \<in> (core_adj is_core nbh n)\<^sup>*"
        using reached_core_connected [OF _ _ len] True h by (simp add: R_def)
      then have "(u, i) \<in> (core_adj is_core nbh n)\<^sup>*"
        by (rule core_adj_rtrancl_sym [OF wf])
      moreover have "(i, v) \<in> (core_adj is_core nbh n)\<^sup>*"
        using reached_core_connected [OF _ _ len] \<open>v \<in> R\<close> h by (simp add: R_def)
      ultimately show ?thesis by simp
    next
      case False
      then have lu: "L' ! u = L ! u" using new [OF u] by simp
      have "v \<notin> R"
      proof
        assume "v \<in> R"
        then have "L' ! v = int c" using new [OF v] by simp
        then show False using neq [OF u False] h by simp
      qed
      then have "L' ! v = L ! v" using new [OF v] by simp
      then show ?thesis using conn [OF u v] h lu by simp
    qed
  qed
  have p6: "\<forall>v < n. \<not> is_core ! v \<and> L' ! v \<noteq> - 1 \<longrightarrow>
            (\<exists>u < n. is_core ! u \<and> v \<in> set (nbh ! u) \<and> L' ! u = L' ! v)"
  proof (intro allI impI)
    fix v assume v: "v < n" and h: "\<not> is_core ! v \<and> L' ! v \<noteq> - 1"
    show "\<exists>u < n. is_core ! u \<and> v \<in> set (nbh ! u) \<and> L' ! u = L' ! v"
    proof (cases "v \<in> R")
      case True
      have "v \<noteq> i" using h i(3) by auto
      then obtain y where y: "y \<in> R" "is_core ! y" "v \<in> set (nbh ! y)"
        using reached_border [of v is_core nbh L i] True by (auto simp: R_def)
      have yn: "y < n" using R_unl [OF y(1)] by simp
      have "L' ! y = L' ! v" using new [OF yn] new [OF v] y(1) True by simp
      then show ?thesis using y yn by blast
    next
      case False
      then have lv: "L' ! v = L ! v" using new [OF v] by simp
      then obtain u where u: "u < n" "is_core ! u" "v \<in> set (nbh ! u)" "L ! u = L ! v"
        using border [OF v] h by auto
      have "L ! u \<noteq> - 1" using u(4) lv h by simp
      then have "L' ! u = L ! u" using old [OF u(1)] by simp
      then show ?thesis using u lv by auto
    qed
  qed
  show ?thesis
    unfolding dfs scan_inv_def by (intro conjI p1 p2 p3 p4 p5 p6)
qed

lemma scan_inv_length: "scan_inv is_core nbh n D c L \<Longrightarrow> length L = n"
  unfolding scan_inv_def by (elim conjE)

lemma scan_inv_range:
  "scan_inv is_core nbh n D c L \<Longrightarrow> u < n \<Longrightarrow> L ! u = - 1 \<or> (0 \<le> L ! u \<and> L ! u < int c)"
  unfolding scan_inv_def by (elim conjE) blast

lemma scan_inv_scanned:
  "scan_inv is_core nbh n D c L \<Longrightarrow> u < n \<Longrightarrow> u \<in> D \<Longrightarrow> is_core ! u \<Longrightarrow> L ! u \<noteq> - 1"
  unfolding scan_inv_def by (elim conjE) blast

lemma scan_inv_closed:
  "scan_inv is_core nbh n D c L \<Longrightarrow> u < n \<Longrightarrow> v \<in> set (nbh ! u) \<Longrightarrow> is_core ! u \<Longrightarrow>
   L ! u \<noteq> - 1 \<Longrightarrow> L ! v \<noteq> - 1 \<and> (is_core ! v \<longrightarrow> L ! v = L ! u)"
  unfolding scan_inv_def by (elim conjE) blast

lemma scan_inv_connected:
  "scan_inv is_core nbh n D c L \<Longrightarrow> u < n \<Longrightarrow> v < n \<Longrightarrow> is_core ! u \<Longrightarrow> is_core ! v \<Longrightarrow>
   L ! u \<noteq> - 1 \<Longrightarrow> L ! u = L ! v \<Longrightarrow> (u, v) \<in> (core_adj is_core nbh n)\<^sup>*"
  unfolding scan_inv_def by (elim conjE) blast

lemma scan_inv_border:
  "scan_inv is_core nbh n D c L \<Longrightarrow> v < n \<Longrightarrow> \<not> is_core ! v \<Longrightarrow> L ! v \<noteq> - 1 \<Longrightarrow>
   \<exists>u < n. is_core ! u \<and> v \<in> set (nbh ! u) \<and> L ! u = L ! v"
  unfolding scan_inv_def by (elim conjE) blast

lemma scan_inv_init: "scan_inv is_core nbh n {} 0 (replicate n (- 1))"
  unfolding scan_inv_def by simp

lemma scan_inv_scan:
  assumes "wf_neighbors n nbh" and "scan_inv is_core nbh n D c L" and "set idx \<subseteq> {..<n}"
  shows "\<exists>c'. scan_inv is_core nbh n (D \<union> set idx) c' (dbscan_scan is_core nbh idx c L)"
  using assms(2,3)
proof (induction idx arbitrary: D c L)
  case Nil
  then show ?case by auto
next
  case (Cons i idx)
  have i: "i < n" and idx: "set idx \<subseteq> {..<n}" using Cons.prems(2) by auto
  show ?case
  proof (cases "L ! i \<noteq> - 1 \<or> \<not> is_core ! i")
    case True
    have "scan_inv is_core nbh n (insert i D) c L"
      by (rule scan_inv_skip [OF Cons.prems(1) True])
    from Cons.IH [OF this idx] show ?thesis
      using True by simp
  next
    case False
    then have f: "L ! i = - 1" "is_core ! i" by auto
    have "scan_inv is_core nbh n (insert i D) (c + 1) (dbscan_dfs is_core nbh c i [] L)"
      by (rule scan_inv_dfs [OF Cons.prems(1) assms(1) i f])
    from Cons.IH [OF this idx] show ?thesis
      using f by simp
  qed
qed

lemma dbscan_inner_inv:
  assumes "wf_neighbors n nbh"
  shows "\<exists>c. scan_inv is_core nbh n {..<n} c (dbscan_inner is_core nbh (replicate n (- 1)))"
proof -
  have "set [0..<n] \<subseteq> {..<n}" by auto
  from scan_inv_scan [OF assms scan_inv_init this, of is_core]
  show ?thesis by (simp add: dbscan_inner_def lessThan_atLeast0)
qed

text \<open>Labels once given stay.\<close>

lemma dbscan_dfs_keeps:
  "length (dbscan_dfs is_core nbh c i stack L) = length L
   \<and> (\<forall>u < length L. L ! u \<noteq> - 1 \<longrightarrow> dbscan_dfs is_core nbh c i stack L ! u = L ! u)"
proof -
  have "u \<notin> reached is_core nbh L (insert i (set stack))" if "u < length L" "L ! u \<noteq> - 1" for u
    using reached_subset [of is_core nbh L "insert i (set stack)"] that
    by (auto simp: unlabelled_def)
  then show ?thesis
    by (simp add: dbscan_dfs_paint nth_paint)
qed

lemma dbscan_scan_keeps:
  "length (dbscan_scan is_core nbh idx c L) = length L
   \<and> (\<forall>u < length L. L ! u \<noteq> - 1 \<longrightarrow> dbscan_scan is_core nbh idx c L ! u = L ! u)"
proof (induction idx arbitrary: c L)
  case Nil
  then show ?case by simp
next
  case (Cons i idx)
  show ?case
  proof (cases "L ! i \<noteq> - 1 \<or> \<not> is_core ! i")
    case True
    then show ?thesis using Cons.IH [of c L] by simp
  next
    case False
    let ?L1 = "dbscan_dfs is_core nbh c i [] L"
    have k: "length ?L1 = length L" "\<forall>u < length L. L ! u \<noteq> - 1 \<longrightarrow> ?L1 ! u = L ! u"
      using dbscan_dfs_keeps [of is_core nbh c i "[]" L] by blast+
    have s: "dbscan_scan is_core nbh (i # idx) c L = dbscan_scan is_core nbh idx (c + 1) ?L1"
      using False by simp
    have ih: "length (dbscan_scan is_core nbh idx (c + 1) ?L1) = length ?L1"
      "\<forall>u < length ?L1. ?L1 ! u \<noteq> - 1 \<longrightarrow> dbscan_scan is_core nbh idx (c + 1) ?L1 ! u = ?L1 ! u"
      using Cons.IH [of "c + 1" ?L1] by blast+
    show ?thesis
      unfolding s using k ih by (metis (no_types, lifting))
  qed
qed

lemma dbscan_scan_no_core:
  assumes "\<forall>i \<in> set idx. L ! i \<noteq> - 1 \<or> \<not> is_core ! i"
  shows "dbscan_scan is_core nbh idx c L = L"
  using assms by (induction idx) auto

section \<open>Clustering: neighbour lists, input check and scaler\<close>

lemma length_radius_neighbors: "length (radius_neighbors eps P) = length P"
  by (simp add: radius_neighbors_def)

lemma nth_radius_neighbors:
  "u < length P \<Longrightarrow>
   radius_neighbors eps P ! u = filter (\<lambda>j. euclidean (P ! u) (P ! j) \<le> eps) [0..<length P]"
  by (simp add: radius_neighbors_def)

lemma set_radius_neighbors:
  "u < length P \<Longrightarrow>
   set (radius_neighbors eps P ! u) = {j. j < length P \<and> euclidean (P ! u) (P ! j) \<le> eps}"
  by (auto simp: nth_radius_neighbors)

lemma distinct_radius_neighbors:
  "u < length P \<Longrightarrow> distinct (radius_neighbors eps P ! u)"
  by (simp add: nth_radius_neighbors)

lemma euclidean_sym: "euclidean p q = euclidean q p"
  by (simp add: euclidean_def power2_commute)

lemma euclidean_self: "euclidean p p = 0"
  by (simp add: euclidean_def)

lemma wf_radius_neighbors: "wf_neighbors (length P) (radius_neighbors eps P)"
  unfolding wf_neighbors_def
proof (intro conjI allI impI ballI)
  show "length (radius_neighbors eps P) = length P" by (rule length_radius_neighbors)
next
  fix u v assume "u < length P" "v \<in> set (radius_neighbors eps P ! u)"
  then show "v < length P" by (simp add: set_radius_neighbors)
next
  fix u v assume u: "u < length P" and v: "v \<in> set (radius_neighbors eps P ! u)"
  then have "v < length P" "euclidean (P ! u) (P ! v) \<le> eps"
    by (simp_all add: set_radius_neighbors)
  then show "u \<in> set (radius_neighbors eps P ! v)"
    using u by (simp add: set_radius_neighbors euclidean_sym)
qed

lemma radius_neighbors_self:
  "0 \<le> eps \<Longrightarrow> u < length P \<Longrightarrow> u \<in> set (radius_neighbors eps P ! u)"
  by (simp add: set_radius_neighbors euclidean_self)

lemma length_radius_neighbors_le:
  "u < length P \<Longrightarrow> length (radius_neighbors eps P ! u) \<le> length P"
  using length_filter_le [of _ "[0..<length P]"] by (simp add: nth_radius_neighbors)

text \<open>The input check.\<close>

lemma those_None: "None \<in> set xs \<Longrightarrow> those xs = None"
  by (induction xs) (auto split: option.splits)

lemma those_Some_length: "those xs = Some ys \<Longrightarrow> length ys = length xs"
  by (induction xs arbitrary: ys) (auto split: option.splits)

lemma those_map_Some: "those (map Some ys) = Some ys"
  by (induction ys) auto

lemma check_array_missing:
  assumes "p \<in> set X" and "fst p = None \<or> snd p = None"
  shows "check_array X = Inl ValueError"
proof -
  have "finite_point p = None"
    using assms(2) by (cases p rule: finite_point.cases) auto
  then have "None \<in> set (map finite_point X)"
    using assms(1) by force
  then show ?thesis
    by (simp add: check_array_def those_None)
qed

lemma check_array_length:
  "check_array X = Inr P \<Longrightarrow> length P = length X \<and> P \<noteq> []"
  by (auto simp: check_array_def split: option.splits if_splits dest: those_Some_length)

lemma check_array_present:
  "check_array (map (\<lambda>p. (Some (fst p), Some (snd p))) P') =
           (if P' = [] then Inl ValueError else Inr P')"
proof -
  have "map finite_point (map (\<lambda>p. (Some (fst p), Some (snd p))) P') = map Some P'"
    by simp
  then show ?thesis
    by (simp add: check_array_def those_map_Some del: map_map)
qed

lemma DBSCAN_fit_predict_valid:
  assumes "0 < eps" and "1 \<le> min_samples" and "check_array X = Inr P"
  shows "DBSCAN_fit_predict eps min_samples X =
           Inr (dbscan_inner (map (\<lambda>k. min_samples \<le> k) (map length (radius_neighbors eps P)))
                  (radius_neighbors eps P) (replicate (length P) (- 1)))"
  using assms by (simp add: DBSCAN_fit_predict_def Let_def)

lemma DBSCAN_fit_predict_missing:
  assumes "p \<in> set X" and "fst p = None \<or> snd p = None" and "0 < eps" and "1 \<le> min_samples"
  shows "DBSCAN_fit_predict eps min_samples X = Inl ValueError"
  using check_array_missing [OF assms(1,2)] assms(3,4)
  by (simp add: DBSCAN_fit_predict_def)

text \<open>The scaler.\<close>

lemma length_scale_column: "length (scale_column col) = length col"
  by (simp add: scale_column_def Let_def)

lemma dropna_Nil_nth:
  assumes "dropna col = []" and "i < length col"
  shows "col ! i = None"
proof (cases "col ! i")
  case None
  then show ?thesis .
next
  case (Some v)
  then have "Some v \<in> set col" using assms(2) by (metis nth_mem)
  then have "v \<in> set (dropna col)" by (simp add: set_dropna)
  then show ?thesis using assms(1) by simp
qed

lemma scale_column_None:
  "i < length col \<Longrightarrow> scale_column col ! i = None \<longleftrightarrow> col ! i = None"
  by (auto simp: scale_column_def Let_def dropna_Nil_nth)

lemma scale_column_Some:
  "i < length col \<Longrightarrow> col ! i \<noteq> None \<Longrightarrow> scale_column col ! i \<noteq> None"
  by (simp add: scale_column_None)

lemma StandardScaler_nonempty:
  "X \<noteq> [] \<Longrightarrow>
   StandardScaler_fit_transform X = Inr (zip (scale_column (map fst X)) (scale_column (map snd X)))"
  by (simp add: StandardScaler_fit_transform_def)

lemma coords_nth:
  "i < length (data st) \<Longrightarrow> coords st ! i = (longitude (data st ! i), latitude (data st ! i))"
  by (simp add: coords_def)

lemma length_coords: "length (coords st) = length (data st)"
  by (simp add: coords_def)

lemma spatial_clustering_missing:
  assumes "r \<in> set (data st)" and "longitude r = None \<or> latitude r = None"
  shows "spatial_clustering st = Inl ValueError"
proof -
  let ?X = "coords st"
  let ?S = "zip (scale_column (map fst ?X)) (scale_column (map snd ?X))"
  obtain i where i: "i < length (data st)" "data st ! i = r"
    using assms(1) by (metis in_set_conv_nth)
  have ne: "?X \<noteq> []" using i(1) length_coords [of st] by auto
  have li: "i < length ?S" using i(1) by (simp add: length_scale_column length_coords)
  have "fst (?S ! i) = None \<longleftrightarrow> longitude r = None"
    using i by (simp add: length_scale_column length_coords scale_column_None coords_nth)
  moreover have "snd (?S ! i) = None \<longleftrightarrow> latitude r = None"
    using i by (simp add: length_scale_column length_coords scale_column_None coords_nth)
  ultimately have "fst (?S ! i) = None \<or> snd (?S ! i) = None"
    using assms(2) by auto
  moreover have "?S ! i \<in> set ?S" using li by (rule nth_mem)
  ultimately have "DBSCAN_fit_predict (3 / 10) 3 ?S = Inl ValueError"
    by (intro DBSCAN_fit_predict_missing [of "?S ! i"]) simp_all
  then show ?thesis
    by (simp add: spatial_clustering_def StandardScaler_nonempty [OF ne])
qed

lemma scaled_present:
  assumes "\<forall>r \<in> set (data st). longitude r \<noteq> None \<and> latitude r \<noteq> None" and "data st \<noteq> []"
  shows "\<exists>S P. StandardScaler_fit_transform (coords st) = Inr S \<and> check_array S = Inr P
           \<and> length P = length (data st)"
proof -
  let ?X = "coords st"
  let ?S = "zip (scale_column (map fst ?X)) (scale_column (map snd ?X))"
  let ?P = "map (\<lambda>p. (the (fst p), the (snd p))) ?S"
  have ne: "?X \<noteq> []" using assms(2) by (simp add: coords_def)
  have len: "length ?S = length (data st)"
    by (simp add: length_scale_column length_coords)
  have pres: "fst (?S ! i) \<noteq> None \<and> snd (?S ! i) \<noteq> None" if "i < length (data st)" for i
  proof -
    have "data st ! i \<in> set (data st)" using that by simp
    then have "longitude (data st ! i) \<noteq> None" "latitude (data st ! i) \<noteq> None"
      using assms(1) by blast+
    then show ?thesis
      using that by (simp add: length_scale_column length_coords scale_column_None coords_nth)
  qed
  have "map (\<lambda>p. (Some (fst p), Some (snd p))) ?P = ?S"
  proof (rule nth_equalityI)
    show "length (map (\<lambda>p. (Some (fst p), Some (snd p))) ?P) = length ?S" by simp
  next
    fix i assume "i < length (map (\<lambda>p. (Some (fst p), Some (snd p))) ?P)"
    then have i: "i < length (data st)"
      by (simp add: length_scale_column length_coords)
    then have iS: "i < length ?S"
      by (simp add: length_scale_column length_coords)
    obtain a b where ab: "?S ! i = (a, b)" by (cases "?S ! i")
    have "a \<noteq> None" "b \<noteq> None" using pres [OF i] ab by simp_all
    then obtain a' b' where "a = Some a'" "b = Some b'" by auto
    then show "map (\<lambda>p. (Some (fst p), Some (snd p))) ?P ! i = ?S ! i"
      using iS ab by (simp add: length_scale_column length_coords)
  qed
  then have "check_array ?S = (if ?P = [] then Inl ValueError else Inr ?P)"
    using check_array_present [of ?P] by simp
  moreover have "?P \<noteq> []" using len assms(2) by (metis length_0_conv length_map)
  ultimately have "check_array ?S = Inr ?P" by simp
  moreover have "length ?P = length (data st)" using len by simp
  ultimately show ?thesis
    using StandardScaler_nonempty [OF ne] by blast
qed

lemma dbscan_inner_no_core:
  assumes "\<forall>i < n. \<not> is_core ! i"
  shows "dbscan_inner is_core nbh (replicate n (- 1)) = replicate n (- 1)"
  unfolding dbscan_inner_def
  by (rule dbscan_scan_no_core) (use assms in simp)

lemma DBSCAN_fit_predict_few:
  assumes "0 < eps" and "check_array X = Inr P" and "length P < 3"
  shows "DBSCAN_fit_predict eps 3 X = Inr (replicate (length P) (- 1))"
proof -
  let ?nbh = "radius_neighbors eps P"
  let ?core = "map (\<lambda>k. 3 \<le> k) (map length ?nbh)"
  have "\<forall>i < length P. \<not> ?core ! i"
  proof (intro allI impI)
    fix i assume i: "i < length P"
    have "length (?nbh ! i) < 3"
      using length_radius_neighbors_le [OF i, of eps] assms(3) by simp
    then show "\<not> ?core ! i"
      using i by (simp add: length_radius_neighbors)
  qed
  then have "dbscan_inner ?core ?nbh (replicate (length P) (- 1)) = replicate (length P) (- 1)"
    by (rule dbscan_inner_no_core)
  then show ?thesis
    using DBSCAN_fit_predict_valid [OF assms(1) _ assms(2), of 3] by simp
qed

lemma spatial_clustering_few:
  assumes "\<forall>r \<in> set (data st). longitude r \<noteq> None \<and> latitude r \<noteq> None"
    and "data st \<noteq> []" and "length (data st) < 3"
  shows "spatial_clustering st =
           Inr (replicate (length (data st)) (- 1),
                st\<lparr> cluster := Some (replicate (length (data st)) (- 1)) \<rparr>)"
proof -
  obtain S P where S: "StandardScaler_fit_transform (coords st) = Inr S"
      and P: "check_array S = Inr P" and len: "length P = length (data st)"
    using scaled_present [OF assms(1,2)] by blast
  have "DBSCAN_fit_predict (3 / 10) 3 S = Inr (replicate (length P) (- 1))"
    by (rule DBSCAN_fit_predict_few [OF _ P]) (use len assms(3) in simp_all)
  then show ?thesis
    by (simp add: spatial_clustering_def S len)
qed

lemma dropna_replicate: "dropna (replicate n (Some x)) = replicate n x"
  by (induction n) auto

lemma scale_column_constant:
  assumes "0 < n"
  shows "scale_column (replicate n (Some x)) = replicate n (Some 0)"
proof -
  let ?vs = "replicate n x"
  have ne: "?vs \<noteq> []" using assms by simp
  have mean: "column_mean ?vs = x"
    using assms by (simp add: column_mean_def sum_list_replicate)
  have "map (\<lambda>v. (v - x)\<^sup>2) ?vs = replicate n 0" by simp
  then have var: "column_var ?vs = 0"
    unfolding column_var_def mean by (simp add: sum_list_replicate)
  show ?thesis
    unfolding scale_column_def dropna_replicate Let_def mean var
    using ne by simp
qed

lemma those_replicate: "those (replicate n (Some a)) = Some (replicate n a)"
  by (induction n) auto

lemma radius_neighbors_coincident:
  assumes "0 \<le> eps"
  shows "radius_neighbors eps (replicate n p) = replicate n [0..<n]"
proof (rule nth_equalityI)
  show "length (radius_neighbors eps (replicate n p)) = length (replicate n [0..<n])"
    by (simp add: length_radius_neighbors)
next
  fix u assume "u < length (radius_neighbors eps (replicate n p))"
  then have u: "u < n" by (simp add: length_radius_neighbors)
  have "filter (\<lambda>j. euclidean (replicate n p ! u) (replicate n p ! j) \<le> eps) [0..<n] = [0..<n]"
    using assms u by (intro filter_True) (simp add: euclidean_self)
  then show "radius_neighbors eps (replicate n p) ! u = replicate n [0..<n] ! u"
    using u by (simp add: nth_radius_neighbors)
qed

text \<open>When all points are core points and neighbours of each other, all take the label 0.\<close>

lemma dbscan_inner_complete:
  assumes "0 < n"
  shows "dbscan_inner (replicate n True) (replicate n [0..<n]) (replicate n (- 1)) = replicate n 0"
proof -
  define core where "core = replicate n True"
  define nbh where "nbh = replicate n [0..<n]"
  let ?L0 = "replicate n (- 1 :: int)"
  let ?R = "reached core nbh ?L0 {0}"
  have core0: "core ! 0" using assms by (simp add: core_def)
  have nbh0: "set (nbh ! 0) = {..<n}" using assms by (auto simp: nbh_def)
  have unl: "unlabelled ?L0 = {..<n}" by (auto simp: unlabelled_def)
  have all: "v \<in> ?R" if "v < n" for v
  proof -
    have "(0, v) \<in> expand_step core nbh ?L0"
      using that assms core0 nbh0 by (simp add: expand_step_def unl)
    then show ?thesis
      using assms unfolding reached_def unl by (simp add: Image_iff)
  qed
  have "paint 0 ?R ?L0 = replicate n 0"
  proof (rule nth_equalityI)
    show "length (paint 0 ?R ?L0) = length (replicate n (0::int))" by simp
  next
    fix v assume "v < length (paint 0 ?R ?L0)"
    then have v: "v < n" by simp
    then show "paint 0 ?R ?L0 ! v = replicate n 0 ! v"
      using all [OF v] by (simp add: nth_paint)
  qed
  then have dfs: "dbscan_dfs core nbh 0 0 [] ?L0 = replicate n 0"
    by (simp add: dbscan_dfs_paint)
  have rest: "dbscan_scan core nbh [Suc 0..<n] (Suc 0) (replicate n 0) = replicate n 0"
    by (rule dbscan_scan_no_core) simp
  have idx: "[0..<n] = 0 # [Suc 0..<n]" using assms by (simp add: upt_conv_Cons)
  have "dbscan_inner core nbh ?L0 = dbscan_scan core nbh (0 # [Suc 0..<n]) 0 ?L0"
    unfolding dbscan_inner_def using idx by simp
  also have "\<dots> = replicate n 0"
    using assms core0 by (simp add: dfs rest)
  finally show ?thesis by (simp add: core_def nbh_def)
qed

lemma spatial_clustering_identical:
  assumes "\<forall>r \<in> set (data st). longitude r = Some x \<and> latitude r = Some y"
    and "3 \<le> length (data st)"
  shows "spatial_clustering st =
           Inr (replicate (length (data st)) 0,
                st\<lparr> cluster := Some (replicate (length (data st)) 0) \<rparr>)"
proof -
  let ?n = "length (data st)"
  have ne0: "data st \<noteq> []" using assms(2) by auto
  have n: "0 < ?n" using ne0 by simp
  have "\<forall>p \<in> set (coords st). p = (Some x, Some y)"
    using assms(1) by (auto simp: coords_def)
  then have c: "coords st = replicate ?n (Some x, Some y)"
    using replicate_length_same [of "coords st" "(Some x, Some y)"] by (simp add: length_coords)
  have ne: "coords st \<noteq> []" using ne0 by (simp add: coords_def)
  have "zip (scale_column (map fst (coords st))) (scale_column (map snd (coords st))) =
      replicate ?n (Some 0, Some 0)"
    unfolding c by (simp add: scale_column_constant [OF n] zip_replicate)
  then have scaled: "StandardScaler_fit_transform (coords st) = Inr (replicate ?n (Some 0, Some 0))"
    using StandardScaler_nonempty [OF ne] by simp
  have chk: "check_array (replicate ?n (Some 0, Some 0)) = Inr (replicate ?n (0, 0))"
    using n by (simp add: check_array_def those_replicate)
  have nbh: "radius_neighbors (3 / 10) (replicate ?n (0, 0)) = replicate ?n [0..<?n]"
    by (rule radius_neighbors_coincident) simp
  have core: "map (\<lambda>k. 3 \<le> k) (map length (replicate ?n [0..<?n])) = replicate ?n True"
    using assms(2) by simp
  have "DBSCAN_fit_predict (3 / 10) 3 (replicate ?n (Some 0, Some 0)) = Inr (replicate ?n 0)"
    using DBSCAN_fit_predict_valid [OF _ _ chk, of "3 / 10" 3] assms(2)
    by (simp add: nbh dbscan_inner_complete [OF n])
  then show ?thesis
    by (simp add: spatial_clustering_def scaled)
qed

section \<open>Records without a coordinate\<close>

text \<open>
  C2. The claim asks that a record missing its longitude or latitude be left out of the
  scaled coordinates and of the clustering and be labelled -1. The code does not do so:
  the scaler passes the missing value on, the input check of the clustering refuses it,
  and \<open>spatial_clustering\<close> ends with \<open>ValueError\<close> and labels no record. Here for a
  frame of four outlets, the second without longitude.
\<close>

theorem missing_coordinate_raises:
  "spatial_clustering
     (sample_tracer [sample_row ''A'' None (Some 111) (Some 33) None None,
                     sample_row ''B'' None None (Some 33) None None,
                     sample_row ''C'' None (Some 111) (Some 33) None None,
                     sample_row ''D'' None (Some 111) (Some 33) None None])
   = Inl ValueError"
  by (rule spatial_clustering_missing
        [of "sample_row ''B'' None None (Some 33) None None"])
     (simp_all add: sample_defs)

section \<open>Degenerate clustering input\<close>

text \<open>
  C3 as stated does not hold for coinciding points: three or more records with the same
  coordinates are core points of one cluster. Three outlets at the same place are all
  labelled 0, none is noise.
\<close>

theorem identical_points_form_one_cluster:
  "spatial_clustering
     (sample_tracer [sample_row ''A'' None (Some 111) (Some 33) None None,
                     sample_row ''B'' None (Some 111) (Some 33) None None,
                     sample_row ''C'' None (Some 111) (Some 33) None None])
   = Inr ([0, 0, 0],
          \<lparr> data = [sample_row ''A'' None (Some 111) (Some 33) None None,
                    sample_row ''B'' None (Some 111) (Some 33) None None,
                    sample_row ''C'' None (Some 111) (Some 33) None None],
            cluster = Some [0, 0, 0], total_pollution = None \<rparr>)"
proof -
  let ?st = "sample_tracer [sample_row ''A'' None (Some 111) (Some 33) None None,
                     sample_row ''B'' None (Some 111) (Some 33) None None,
                     sample_row ''C'' None (Some 111) (Some 33) None None]"
  have a: "\<forall>r \<in> set (data ?st). longitude r = Some 111 \<and> latitude r = Some 33"
    by (simp add: sample_defs)
  have b: "3 \<le> length (data ?st)" by (simp add: sample_defs)
  show ?thesis
    using spatial_clustering_identical [OF a b]
    by (simp add: sample_tracer_def numeral_3_eq_3)
qed

text \<open>
  C3, amended. For a frame in which every record has both coordinates: with one or two
  records, \<open>spatial_clustering\<close> returns without error and labels every record -1, so
  there is no cluster; with three or more records that all have the same coordinates, it
  returns without error and labels every record 0, so there is exactly one cluster and no
  noise.
\<close>

theorem degenerate_clustering_input:
  assumes "\<forall>r \<in> set (data st). longitude r \<noteq> None \<and> latitude r \<noteq> None" and "data st \<noteq> []"
  shows "(length (data st) < 3 \<longrightarrow>
            spatial_clustering st =
              Inr (replicate (length (data st)) (- 1),
                   st\<lparr> cluster := Some (replicate (length (data st)) (- 1)) \<rparr>))
       \<and> (3 \<le> length (data st)
            \<and> (\<exists>x y. \<forall>r \<in> set (data st). longitude r = Some x \<and> latitude r = Some y) \<longrightarrow>
            spatial_clustering st =
              Inr (replicate (length (data st)) 0,
                   st\<lparr> cluster := Some (replicate (length (data st)) 0) \<rparr>))"
  using spatial_clustering_few [OF assms] spatial_clustering_identical [of st]
  by blast

theorem degenerate_clustering_input_witness:
  "spatial_clustering
     (sample_tracer [sample_row ''A'' None (Some 111) (Some 33) None None,
                     sample_row ''B'' None (Some 112) (Some 32) None None])
   = Inr ([- 1, - 1],
          \<lparr> data = [sample_row ''A'' None (Some 111) (Some 33) None None,
                    sample_row ''B'' None (Some 112) (Some 32) None None],
            cluster = Some [- 1, - 1], total_pollution = None \<rparr>)"
proof -
  let ?st = "sample_tracer [sample_row ''A'' None (Some 111) (Some 33) None None,
                     sample_row ''B'' None (Some 112) (Some 32) None None]"
  have a: "\<forall>r \<in> set (data ?st). longitude r \<noteq> None \<and> latitude r \<noteq> None"
    by (simp add: sample_defs)
  have b: "data ?st \<noteq> []" by (simp add: sample_defs)
  have c: "length (data ?st) < 3" by (simp add: sample_defs)
  show ?thesis
    using degenerate_clustering_input [OF a b] c
    by (simp add: sample_tracer_def numeral_2_eq_2)
qed

end
